theory Spec2Isabelle
  imports Main "HOL-Library.Word" "HOL-Library.Sublist"
begin

unbundle bit_operations_syntax

section \<open>Package filetree: the data model\<close>

text \<open>
  Go strings are byte sequences, so a path is a \<open>string\<close> (a list of 8-bit characters)
  and \<open>length\<close> is Go's \<open>len\<close>. The payload \<open>Value interface{}\<close> is an arbitrary value
  that may be \<open>nil\<close>: an \<open>'v option\<close>, with \<open>None\<close> for \<open>nil\<close>. An \<open>Entry\<close> holds its
  children by value (\<open>[]Entry\<close>), so the type is recursive and the children of an entry
  are snapshots. A \<open>nil\<close> slice and an empty slice are both the empty list.
\<close>

datatype 'v Entry = Entry (FullName: string) (Children: "'v Entry list") (Value: "'v option")

text \<open>The zero value \<open>Entry{}\<close>, which a Go map read returns for a missing key.\<close>

definition zeroEntry :: "'v Entry" where
  "zeroEntry = Entry [] [] None"

type_synonym 'v index_map = "string \<Rightarrow> 'v Entry option"

record 'v Tree =
  index :: "'v index_map"

text \<open>\<open>New\<close>: a tree whose index is the empty map.\<close>

definition New :: "'v Tree" where
  "New = \<lparr>index = Map.empty\<rparr>"

subsection \<open>File metadata derived from an entry\<close>

text \<open>
  \<open>os.FileMode\<close> is a \<open>uint32\<close>; \<open>os.ModeDir\<close> is its top bit (\<open>1 << 31\<close>), the
  permissions \<open>0555\<close> and \<open>0444\<close> are octal. \<open>FileMode.IsDir\<close> tests the top bit.
  \<open>Size\<close> is an \<open>int64\<close> product, which wraps.
\<close>

type_synonym FileMode = "32 word"

definition ModeDir :: FileMode where
  "ModeDir = push_bit 31 1"

definition FileMode_IsDir :: "FileMode \<Rightarrow> bool" where
  "FileMode_IsDir m = (m AND ModeDir \<noteq> 0)"

definition sizeOfEntry :: "64 word" where
  "sizeOfEntry = 512"

definition Size :: "'v Entry \<Rightarrow> 64 word" where
  "Size e = sizeOfEntry * of_nat (length (Children e))"

definition Mode :: "'v Entry \<Rightarrow> FileMode" where
  "Mode e = (if length (Children e) > 0 then ModeDir OR 365 else 292)"

definition IsDir :: "'v Entry \<Rightarrow> bool" where
  "IsDir e = FileMode_IsDir (Mode e)"

subsection \<open>Go's \<open>path\<close> package: \<open>Split\<close> and \<open>Clean\<close>\<close>

text \<open>
  \<open>path.Split\<close> cuts a path right after its final slash:
  \<^verbatim>\<open>i := LastIndexByte(path, '/'); return path[:i+1], path[i+1:]\<close>,
  where the index is \<open>-1\<close> when the path has no slash. The scan runs from the last
  byte down to the first.
\<close>

fun lastIndexFrom :: "string \<Rightarrow> char \<Rightarrow> nat \<Rightarrow> int" where
  "lastIndexFrom s c 0 = - 1"
| "lastIndexFrom s c (Suc i) = (if s ! i = c then int i else lastIndexFrom s c i)"

definition LastIndexByte :: "string \<Rightarrow> char \<Rightarrow> int" where
  "LastIndexByte s c = lastIndexFrom s c (length s)"

definition Split :: "string \<Rightarrow> string \<times> string" where
  "Split p = (let i = LastIndexByte p CHR ''/'' in (take (nat (i + 1)) p, drop (nat (i + 1)) p))"

text \<open>
  \<open>path.Clean\<close> reads the path from index \<open>r\<close> and writes into a buffer. The model
  carries the unread part of the path (\<open>drop r path\<close>) and the written part of the
  buffer (\<open>out\<close>, so that Go's \<open>out.w\<close> is \<open>length out\<close>); Go's \<open>lazybuf\<close> only
  delays the allocation of that buffer. \<open>dotdot\<close> is the buffer index below which
  a \<open>..\<close> element may not remove anything.

  Removing the last element for a \<open>..\<close>: \<^verbatim>\<open>out.w--; for out.w > dotdot && out.index(out.w) != '/' { out.w-- }\<close>.
\<close>

function backtrack :: "string \<Rightarrow> nat \<Rightarrow> nat \<Rightarrow> nat" where
  "backtrack buf dotdot w =
     (if w > dotdot \<and> buf ! w \<noteq> CHR ''/'' then backtrack buf dotdot (w - 1) else w)"
  by pat_completeness auto
termination
  by (relation "measure (\<lambda>(buf, dotdot, w). w)") auto

declare backtrack.simps [simp del]

text \<open>The test \<^verbatim>\<open>r+k == n || path[r+k] == '/'\<close> on the unread part from \<open>r+k\<close> on.\<close>

definition endOrSlash :: "string \<Rightarrow> bool" where
  "endOrSlash s = (case s of [] \<Rightarrow> True | c # _ \<Rightarrow> c = CHR ''/'')"

text \<open>
  The main loop, one equation per \<^verbatim>\<open>switch\<close>, in the order of the source: an empty
  element, a \<open>.\<close> element, a \<open>..\<close> element, a real element (copied up to the next
  slash). The third case reads \<open>path[r+1]\<close>, which exists there because the second
  case did not apply.
\<close>

function Clean_loop :: "bool \<Rightarrow> string \<Rightarrow> nat \<Rightarrow> string \<Rightarrow> string" where
  "Clean_loop rooted out dotdot [] = out"
| "Clean_loop rooted out dotdot (c # rest) =
     (if c = CHR ''/'' then Clean_loop rooted out dotdot rest
      else if c = CHR ''.'' \<and> endOrSlash rest then Clean_loop rooted out dotdot rest
      else if c = CHR ''.'' \<and> rest \<noteq> [] \<and> hd rest = CHR ''.'' \<and> endOrSlash (tl rest) then
        (if length out > dotdot then
           Clean_loop rooted (take (backtrack out dotdot (length out - 1)) out) dotdot (tl rest)
         else if \<not> rooted then
           (let out1 = (if length out > 0 then out @ ''/'' else out);
                out2 = out1 @ ''..''
            in Clean_loop rooted out2 (length out2) (tl rest))
         else Clean_loop rooted out dotdot (tl rest))
      else
        (let out1 = (if rooted \<and> length out \<noteq> 1 \<or> \<not> rooted \<and> length out \<noteq> 0
                     then out @ ''/'' else out)
         in Clean_loop rooted (out1 @ takeWhile (\<lambda>x. x \<noteq> CHR ''/'') (c # rest)) dotdot
              (dropWhile (\<lambda>x. x \<noteq> CHR ''/'') (c # rest))))"
  by pat_completeness auto
termination
  by (relation "measure (\<lambda>(rooted, out, dotdot, rest). length rest)")
     (auto simp: le_imp_less_Suc length_dropWhile_le)

definition Clean :: "string \<Rightarrow> string" where
  "Clean path =
     (if path = [] then ''.''
      else
        (let rooted = (hd path = CHR ''/'');
             out = (if rooted then Clean_loop True ''/'' 1 (tl path)
                    else Clean_loop False [] 0 path)
         in if length out = 0 then ''.'' else out))"

subsection \<open>The tree operations\<close>

text \<open>The source's \<open>normalize\<close>.\<close>

definition normalize_path :: "string \<Rightarrow> string" where
  "normalize_path filename = Clean (''/'' @ filename)"

text \<open>A Go map read \<open>tree.index[k]\<close> with one result: the zero value for a missing key.\<close>

definition lookup0 :: "'v index_map \<Rightarrow> string \<Rightarrow> 'v Entry" where
  "lookup0 idx k = (case idx k of None \<Rightarrow> zeroEntry | Some e \<Rightarrow> e)"

text \<open>
  The loop of \<open>Put\<close>. Its variable \<open>dir\<close> holds the first result of \<open>path.Split\<close> at
  the loop test and is cut by one byte (the trailing slash) in the body; the post
  statement splits the cut \<open>dir\<close> again.
\<close>

function Put_loop :: "'v index_map \<Rightarrow> string \<Rightarrow> string \<Rightarrow> 'v index_map" where
  "Put_loop idx lastPath dir =
     (if length dir > 0 then
        (let dir1 = take (length dir - 1) dir;
             child = lookup0 idx lastPath;
             parent = lookup0 idx dir1;
             parent1 = Entry dir1 (Children parent @ [child]) (Value parent)
         in Put_loop (idx(dir1 \<mapsto> parent1)) dir1 (fst (Split dir1)))
      else idx)"
  by pat_completeness auto
termination
  by (relation "measure (\<lambda>(idx, lastPath, dir). length dir)")
     (auto simp: Split_def Let_def min_less_iff_disj)

declare Put_loop.simps [simp del]

definition Put :: "'v Tree \<Rightarrow> string \<Rightarrow> 'v option \<Rightarrow> 'v Tree" where
  "Put tree name val =
     (let name1 = normalize_path name;
          idx = (index tree)(name1 \<mapsto> Entry name1 [] val)
      in tree\<lparr>index := Put_loop idx name1 (fst (Split name1))\<rparr>)"

definition Get :: "'v Tree \<Rightarrow> string \<Rightarrow> 'v Entry \<times> bool" where
  "Get tree name =
     (case index tree (normalize_path name) of None \<Rightarrow> (zeroEntry, False) | Some entry \<Rightarrow> (entry, True))"

text \<open>
  The loop of \<open>LongestPrefix\<close>: \<open>dir\<close> starts as the normalized name, loses its last
  byte in the body, is looked up, and is split again by the post statement.
\<close>

function LongestPrefix_loop :: "'v index_map \<Rightarrow> string \<Rightarrow> 'v Entry \<times> bool" where
  "LongestPrefix_loop idx dir =
     (if dir \<noteq> [] then
        (let dir1 = take (length dir - 1) dir
         in case idx dir1 of
              Some entry \<Rightarrow> (entry, True)
            | None \<Rightarrow> LongestPrefix_loop idx (fst (Split dir1)))
      else (zeroEntry, False))"
  by pat_completeness auto
termination
  by (relation "measure (\<lambda>(idx, dir). length dir)")
     (auto simp: Split_def Let_def min_less_iff_disj)

declare LongestPrefix_loop.simps [simp del]

definition LongestPrefix :: "'v Tree \<Rightarrow> string \<Rightarrow> 'v Entry \<times> bool" where
  "LongestPrefix tree name = LongestPrefix_loop (index tree) (normalize_path name)"

text \<open>A sequence of \<open>Put\<close> calls, in order, on a tree.\<close>

definition Puts :: "'v Tree \<Rightarrow> (string \<times> 'v option) list \<Rightarrow> 'v Tree" where
  "Puts tree calls = foldl (\<lambda>t (name, val). Put t name val) tree calls"

subsection \<open>Auxiliary notions for the statements\<close>

text \<open>
  The keys visited by the two loops, which share their shape: from the value that
  \<open>dir\<close> has at the loop test, cut the last byte, visit, split, and go on while the
  result is not empty. \<open>Put\<close> enters with \<open>fst (Split name)\<close>, \<open>LongestPrefix\<close>
  with the normalized name itself.
\<close>

function walk :: "string \<Rightarrow> string list" where
  "walk dir =
     (if length dir > 0 then
        (let dir1 = take (length dir - 1) dir in dir1 # walk (fst (Split dir1)))
      else [])"
  by pat_completeness auto
termination
  by (relation "measure length") (auto simp: Split_def Let_def min_less_iff_disj)

declare walk.simps [simp del]

text \<open>The key of the first iteration of \<open>Put\<close>'s loop: the parent directory of a name.\<close>

definition parentKey :: "string \<Rightarrow> string" where
  "parentKey name = (let dir = fst (Split name) in take (length dir - 1) dir)"

text \<open>
  A path element that \<open>Clean\<close> keeps: not empty, without a slash, and neither \<open>.\<close>
  nor \<open>..\<close>. A normalized absolute path is \<open>/\<close> or a sequence of such elements,
  each after a slash.
\<close>

definition goodSeg :: "string \<Rightarrow> bool" where
  "goodSeg s = (s \<noteq> [] \<and> CHR ''/'' \<notin> set s \<and> s \<noteq> ''.'' \<and> s \<noteq> ''..'')"

definition render :: "string list \<Rightarrow> string" where
  "render segs = (if segs = [] then ''/'' else concat (map (\<lambda>s. CHR ''/'' # s) segs))"

section \<open>Metadata\<close>

lemma ModeDir_value: "ModeDir = (2147483648 :: 32 word)"
  by (simp add: ModeDir_def)

lemma Mode_dir_bit: "((ModeDir OR 365) AND ModeDir) = ModeDir"
  by (simp add: ModeDir_value)

lemma Mode_file_bit: "((292 :: 32 word) AND ModeDir) = 0"
  by (simp add: ModeDir_value)

lemma Size_no_wrap:
  assumes "length (Children e) < 2 ^ 54"
  shows "sint (Size e) = 512 * int (length (Children e))"
proof -
  define k where "k = 512 * int (length (Children e))"
  have b: "- (2 ^ 63) \<le> k" "k < 2 ^ 63"
    using assms by (simp_all add: k_def)
  have "Size e = word_of_int k"
    by (simp add: Size_def sizeOfEntry_def k_def)
  moreover have "sint (word_of_int k :: 64 word) = signed_take_bit 63 k"
    by (simp only: sint_sbintrunc') simp
  moreover have "signed_take_bit 63 k = k"
    using b by (rule signed_take_bit_int_eq_self)
  ultimately show ?thesis by (simp add: k_def)
qed

text \<open>
  C9. \<open>IsDir\<close> holds exactly for an entry with one or more children; \<open>Mode\<close> is
  \<open>ModeDir | 0555\<close> (octal 555 is 365) with children and \<open>0444\<close> (292) without; and
  \<open>Size\<close>, read as the signed 64-bit integer it is, is 512 times the number of
  children, for every slice length below \<open>2 ^ 54\<close> (beyond which the \<open>int64\<close> product
  would wrap).
\<close>

theorem C9_metadata:
  "(IsDir e \<longleftrightarrow> length (Children e) \<ge> 1)
   \<and> Mode e = (if length (Children e) \<ge> 1 then ModeDir OR 365 else 292)
   \<and> (length (Children e) < 2 ^ 54 \<longrightarrow> sint (Size e) = 512 * int (length (Children e)))"
proof -
  have "IsDir e \<longleftrightarrow> length (Children e) \<ge> 1"
  proof (cases "Children e")
    case Nil
    then show ?thesis
      by (simp add: IsDir_def FileMode_IsDir_def Mode_def Mode_file_bit)
  next
    case (Cons c cs)
    then show ?thesis
      by (simp add: IsDir_def FileMode_IsDir_def Mode_def Mode_dir_bit) (simp add: ModeDir_value)
  qed
  moreover have "Mode e = (if length (Children e) \<ge> 1 then ModeDir OR 365 else 292)"
    by (cases "Children e") (simp_all add: Mode_def)
  ultimately show ?thesis
    using Size_no_wrap by blast
qed

theorem C9_metadata_witness:
  "IsDir (Entry ''/a'' [Entry ''/a/b'' [] (Some (1::nat))] None)
   \<and> \<not> IsDir (Entry ''/a/b'' [] (Some (1::nat)))
   \<and> sint (Size (Entry ''/a'' [Entry ''/a/b'' [] (Some (1::nat))] None)) = 512"
  using C9_metadata [of "Entry ''/a'' [Entry ''/a/b'' [] (Some (1::nat))] None"]
    C9_metadata [of "Entry ''/a/b'' [] (Some (1::nat))"]
  by simp

section \<open>Splitting\<close>

lemma lastIndexFrom_none:
  "c \<notin> set s \<Longrightarrow> n \<le> length s \<Longrightarrow> lastIndexFrom s c n = - 1"
  by (induction n) auto

lemma lastIndexFrom_last:
  "c \<notin> set r \<Longrightarrow> n \<le> length r \<Longrightarrow>
   lastIndexFrom (d @ c # r) c (Suc (length d + n)) = int (length d)"
proof (induction n)
  case 0
  then show ?case by simp
next
  case (Suc n)
  then have "r ! n \<noteq> c"
    by (metis Suc_le_lessD nth_mem)
  with Suc show ?case
    by (simp add: nth_append)
qed

lemma Split_no_slash: "CHR ''/'' \<notin> set p \<Longrightarrow> Split p = ([], p)"
  by (simp add: Split_def LastIndexByte_def lastIndexFrom_none)

lemma Split_last_slash:
  assumes "CHR ''/'' \<notin> set r"
  shows "Split (d @ CHR ''/'' # r) = (d @ ''/'', r)"
proof -
  have "lastIndexFrom (d @ CHR ''/'' # r) CHR ''/'' (Suc (length d + length r)) = int (length d)"
    using assms by (rule lastIndexFrom_last) simp
  then have "LastIndexByte (d @ CHR ''/'' # r) CHR ''/'' = int (length d)"
    by (simp add: LastIndexByte_def)
  then show ?thesis
    by (simp add: Split_def nat_add_distrib)
qed

lemma Split_cases:
  obtains (none) "CHR ''/'' \<notin> set p" "Split p = ([], p)"
  | (some) d r where "p = d @ CHR ''/'' # r" "CHR ''/'' \<notin> set r" "Split p = (d @ ''/'', r)"
proof (cases "CHR ''/'' \<in> set p")
  case False
  then show ?thesis using none Split_no_slash by blast
next
  case True
  then obtain d r where "p = d @ CHR ''/'' # r" "CHR ''/'' \<notin> set r"
    by (meson split_list_last)
  then show ?thesis using some Split_last_slash by blast
qed

lemma length_fst_Split: "length (fst (Split p)) \<le> length p"
  by (simp add: Split_def Let_def)

lemma Split_rooted: "Split (CHR ''/'' # r) = (d, b) \<Longrightarrow> d \<noteq> [] \<and> hd d = CHR ''/'' \<and> d @ b = CHR ''/'' # r"
proof (cases "CHR ''/'' # r" rule: Split_cases)
  case none
  then show ?thesis by simp
next
  case (some d' r')
  assume "Split (CHR ''/'' # r) = (d, b)"
  with some have "d = d' @ ''/''" "b = r'" by simp_all
  with some(1) show ?thesis
    by (cases d') auto
qed

section \<open>The keys a loop visits\<close>

lemma walk_Nil: "walk [] = []"
  by (simp add: walk.simps)

lemma walk_step: "dir \<noteq> [] \<Longrightarrow> walk dir = butlast dir # walk (fst (Split (butlast dir)))"
  by (subst walk.simps) (simp add: butlast_conv_take Let_def)

lemma walk_shorter: "d \<in> set (walk dir) \<Longrightarrow> length d < length dir"
proof (induction dir arbitrary: d rule: length_induct)
  case (1 dir)
  show ?case
  proof (cases "dir = []")
    case True
    with "1.prems" show ?thesis by (simp add: walk_Nil)
  next
    case False
    let ?d1 = "butlast dir"
    have len: "length ?d1 < length dir" using False by simp
    from "1.prems" False have "d = ?d1 \<or> d \<in> set (walk (fst (Split ?d1)))"
      by (simp add: walk_step)
    then show ?thesis
    proof
      assume "d = ?d1" with len show ?thesis by simp
    next
      assume a: "d \<in> set (walk (fst (Split ?d1)))"
      have "length (fst (Split ?d1)) < length dir"
        using length_fst_Split [of ?d1] len by linarith
      with "1.IH" a have "length d < length (fst (Split ?d1))" by blast
      with length_fst_Split [of ?d1] len show ?thesis by linarith
    qed
  qed
qed

lemma prefix_slash_cases:
  assumes "d @ CHR ''/'' # r = d' @ CHR ''/'' # r'" "CHR ''/'' \<notin> set r"
  shows "d' = d \<or> (\<exists>u. d = d' @ CHR ''/'' # u)"
proof -
  from assms(1) obtain us where
    "(d = d' @ us \<and> us @ CHR ''/'' # r = CHR ''/'' # r') \<or> (d @ us = d' \<and> CHR ''/'' # r = us @ CHR ''/'' # r')"
    by (auto simp: append_eq_append_conv2)
  then show ?thesis
  proof
    assume "d = d' @ us \<and> us @ CHR ''/'' # r = CHR ''/'' # r'"
    then show ?thesis by (cases us) auto
  next
    assume a: "d @ us = d' \<and> CHR ''/'' # r = us @ CHR ''/'' # r'"
    show ?thesis
    proof (cases us)
      case Nil
      with a show ?thesis by simp
    next
      case (Cons x xs)
      with a have "r = xs @ CHR ''/'' # r'" by simp
      with assms(2) show ?thesis by simp
    qed
  qed
qed

lemma walk_Split_set: "set (walk (fst (Split n))) = {d. \<exists>r. n = d @ CHR ''/'' # r}"
proof (induction n rule: length_induct)
  case (1 n)
  show ?case
  proof (cases n rule: Split_cases)
    case none
    then have "\<And>d r. n \<noteq> d @ CHR ''/'' # r" by auto
    with none show ?thesis by (simp add: walk_Nil)
  next
    case (some d r)
    have "length d < length n" using some(1) by simp
    with "1.IH" have ih: "set (walk (fst (Split d))) = {d'. \<exists>r'. d = d' @ CHR ''/'' # r'}"
      by blast
    have w: "walk (fst (Split n)) = d # walk (fst (Split d))"
      using some(3) by (simp add: walk_step)
    have "{d'. \<exists>r'. n = d' @ CHR ''/'' # r'} = insert d {d'. \<exists>r'. d = d' @ CHR ''/'' # r'}"
    proof (intro set_eqI iffI)
      fix x assume "x \<in> {d'. \<exists>r'. n = d' @ CHR ''/'' # r'}"
      then obtain r' where "d @ CHR ''/'' # r = x @ CHR ''/'' # r'"
        using some(1) by auto
      from prefix_slash_cases [OF this some(2)]
      show "x \<in> insert d {d'. \<exists>r'. d = d' @ CHR ''/'' # r'}" by auto
    next
      fix x assume "x \<in> insert d {d'. \<exists>r'. d = d' @ CHR ''/'' # r'}"
      then show "x \<in> {d'. \<exists>r'. n = d' @ CHR ''/'' # r'}"
        using some(1) by auto
    qed
    with w ih show ?thesis by simp
  qed
qed

lemma name_not_walked: "n \<notin> set (walk (fst (Split n)))"
  using walk_shorter [of n "fst (Split n)"] length_fst_Split [of n] by auto

section \<open>The loop of Put\<close>

lemma Put_loop_Nil: "Put_loop idx lastPath [] = idx"
  by (simp add: Put_loop.simps)

lemma Put_loop_step:
  "dir \<noteq> [] \<Longrightarrow>
   Put_loop idx lastPath dir =
     Put_loop (idx(butlast dir \<mapsto>
                 Entry (butlast dir) (Children (lookup0 idx (butlast dir)) @ [lookup0 idx lastPath])
                   (Value (lookup0 idx (butlast dir)))))
       (butlast dir) (fst (Split (butlast dir)))"
  by (subst Put_loop.simps) (simp add: butlast_conv_take Let_def)

lemma Split_butlast_shorter: "dir \<noteq> [] \<Longrightarrow> length (fst (Split (butlast dir))) < length dir"
  using length_fst_Split [of "butlast dir"] by (cases dir rule: rev_cases) (auto simp: le_imp_less_Suc)

lemma Put_loop_frame: "k \<notin> set (walk dir) \<Longrightarrow> Put_loop idx lastPath dir k = idx k"
proof (induction dir arbitrary: idx lastPath rule: length_induct)
  case (1 dir)
  show ?case
  proof (cases "dir = []")
    case True
    then show ?thesis by (simp add: Put_loop_Nil)
  next
    case False
    let ?d1 = "butlast dir"
    have "length (fst (Split ?d1)) < length dir"
      using False by (rule Split_butlast_shorter)
    moreover from "1.prems" False have "k \<noteq> ?d1" "k \<notin> set (walk (fst (Split ?d1)))"
      by (simp_all add: walk_step)
    ultimately show ?thesis
      using "1.IH" False by (simp add: Put_loop_step)
  qed
qed

lemma Put_loop_first:
  assumes "dir \<noteq> []"
  shows "Put_loop idx lastPath dir (butlast dir) =
           Some (Entry (butlast dir) (Children (lookup0 idx (butlast dir)) @ [lookup0 idx lastPath])
                   (Value (lookup0 idx (butlast dir))))"
proof -
  have "butlast dir \<notin> set (walk (fst (Split (butlast dir))))"
    by (rule name_not_walked)
  then show ?thesis
    using assms by (simp add: Put_loop_step Put_loop_frame)
qed

lemma Put_loop_walked:
  "d \<in> set (walk dir) \<Longrightarrow>
   \<exists>c. Put_loop idx lastPath dir d =
          Some (Entry d (Children (lookup0 idx d) @ [c]) (Value (lookup0 idx d)))"
proof (induction dir arbitrary: idx lastPath rule: length_induct)
  case (1 dir)
  from "1.prems" have ne: "dir \<noteq> []"
    by (auto simp: walk_Nil)
  let ?d1 = "butlast dir"
  show ?case
  proof (cases "d = ?d1")
    case True
    then show ?thesis using Put_loop_first [OF ne] by blast
  next
    case False
    let ?idx = "idx(?d1 \<mapsto> Entry ?d1 (Children (lookup0 idx ?d1) @ [lookup0 idx lastPath])
                              (Value (lookup0 idx ?d1)))"
    have lt: "length (fst (Split ?d1)) < length dir"
      using ne by (rule Split_butlast_shorter)
    from "1.prems" ne False have "d \<in> set (walk (fst (Split ?d1)))"
      by (simp add: walk_step)
    with "1.IH" lt obtain c where
      "Put_loop ?idx ?d1 (fst (Split ?d1)) d =
         Some (Entry d (Children (lookup0 ?idx d) @ [c]) (Value (lookup0 ?idx d)))"
      by blast
    moreover have "lookup0 ?idx d = lookup0 idx d"
      using False by (simp add: lookup0_def)
    ultimately show ?thesis
      using ne by (simp add: Put_loop_step)
  qed
qed

section \<open>Put and Get\<close>

lemma index_Put:
  "index (Put t p v) =
     Put_loop ((index t)(normalize_path p \<mapsto> Entry (normalize_path p) [] v)) (normalize_path p)
       (fst (Split (normalize_path p)))"
  by (simp add: Put_def Let_def)

lemma index_Put_name: "index (Put t p v) (normalize_path p) = Some (Entry (normalize_path p) [] v)"
  by (simp add: index_Put Put_loop_frame name_not_walked)

lemma index_Put_frame:
  assumes "k \<noteq> normalize_path p" "\<not> (\<exists>r. normalize_path p = k @ CHR ''/'' # r)"
  shows "index (Put t p v) k = index t k"
proof -
  have "k \<notin> set (walk (fst (Split (normalize_path p))))"
    using assms(2) by (simp add: walk_Split_set)
  then show ?thesis
    using assms(1) by (simp add: index_Put Put_loop_frame)
qed

lemma index_Put_ancestor:
  assumes "normalize_path p = d @ CHR ''/'' # r"
  shows "\<exists>c. index (Put t p v) d =
           Some (Entry d (Children (lookup0 (index t) d) @ [c]) (Value (lookup0 (index t) d)))"
proof -
  let ?idx = "(index t)(normalize_path p \<mapsto> Entry (normalize_path p) [] v)"
  have "d \<in> set (walk (fst (Split (normalize_path p))))"
    using assms by (auto simp: walk_Split_set)
  then obtain c where
    "Put_loop ?idx (normalize_path p) (fst (Split (normalize_path p))) d =
       Some (Entry d (Children (lookup0 ?idx d) @ [c]) (Value (lookup0 ?idx d)))"
    using Put_loop_walked by blast
  moreover have "d \<noteq> normalize_path p" using assms by simp
  then have "lookup0 ?idx d = lookup0 (index t) d"
    by (simp add: lookup0_def)
  ultimately show ?thesis
    by (simp add: index_Put)
qed

text \<open>
  C4. Immediately after \<open>Put(p, v)\<close>, from any prior tree, \<open>Get(p)\<close> reports found and
  returns the entry stored under the normalized name, whose value is \<open>v\<close>; and every
  \<open>q\<close> that normalizes to the same path gets that same result.
\<close>

theorem C4_get_after_put:
  "Get (Put t p v) p = (Entry (normalize_path p) [] v, True)
   \<and> Value (fst (Get (Put t p v) p)) = v
   \<and> (normalize_path q = normalize_path p \<longrightarrow> Get (Put t p v) q = Get (Put t p v) p)"
  by (simp add: Get_def index_Put_name)

theorem C4_get_after_put_witness:
  "normalize_path ''a//b/'' = normalize_path ''/a/b''
   \<and> Get (Put New ''/a/b'' (Some (7::nat))) ''a//b/'' = (Entry ''/a/b'' [] (Some 7), True)"
proof -
  have n1: "normalize_path ''a//b/'' = ''/a/b''" by code_simp
  have n2: "normalize_path ''/a/b'' = ''/a/b''" by code_simp
  show ?thesis
    using C4_get_after_put [of New "''/a/b''" "Some (7::nat)" "''a//b/''"] n1 n2 by simp
qed

text \<open>
  C7. \<open>Put(p, v)\<close> changes the index only at the normalized name and at the keys of
  its ancestors, the strings \<open>k\<close> with \<open>k/\<close> a prefix of the normalized name: every
  other key maps to what it mapped to before the call (an entry, or nothing).
\<close>

theorem C7_put_frame:
  "k \<noteq> normalize_path p \<Longrightarrow> \<not> (\<exists>r. normalize_path p = k @ CHR ''/'' # r) \<Longrightarrow>
   index (Put t p v) k = index t k"
  by (rule index_Put_frame)

theorem C7_put_frame_witness:
  "''/a/c'' \<noteq> normalize_path ''/a/b'' \<and> \<not> (\<exists>r. normalize_path ''/a/b'' = ''/a/c'' @ CHR ''/'' # r)
   \<and> index (Put (Put New ''/a/c'' (Some (1::nat))) ''/a/b'' (Some 2)) ''/a/c''
       = index (Put New ''/a/c'' (Some 1)) ''/a/c''"
proof -
  have n: "normalize_path ''/a/b'' = ''/a/b''" by code_simp
  have h1: "''/a/c'' \<noteq> normalize_path ''/a/b''" by (simp add: n)
  have h2: "\<not> (\<exists>r. normalize_path ''/a/b'' = ''/a/c'' @ CHR ''/'' # r)" by (simp add: n)
  show ?thesis
    using C7_put_frame [OF h1 h2, of "Put New ''/a/c'' (Some (1::nat))" "Some 2"] h1 h2 by simp
qed

section \<open>Clean on rooted paths\<close>

lemma endOrSlash_simps:
  "endOrSlash [] = True" "endOrSlash (c # r) = (c = CHR ''/'')"
  by (simp_all add: endOrSlash_def)

lemma Clean_loop_slash: "Clean_loop rooted out dd (CHR ''/'' # rest) = Clean_loop rooted out dd rest"
  by simp

lemma Clean_loop_dot:
  "endOrSlash rest \<Longrightarrow> Clean_loop rooted out dd (CHR ''.'' # rest) = Clean_loop rooted out dd rest"
  by simp

lemma Clean_loop_dotdot:
  "endOrSlash rest \<Longrightarrow>
   Clean_loop True out dd (CHR ''.'' # CHR ''.'' # rest) =
     (if length out > dd
      then Clean_loop True (take (backtrack out dd (length out - 1)) out) dd rest
      else Clean_loop True out dd rest)"
  by (simp add: endOrSlash_simps)

lemma takeWhile_seg:
  "CHR ''/'' \<notin> set s \<Longrightarrow> endOrSlash rest \<Longrightarrow> takeWhile (\<lambda>x. x \<noteq> CHR ''/'') (s @ rest) = s"
  by (induction s) (auto simp: endOrSlash_def split: list.splits)

lemma dropWhile_seg:
  "CHR ''/'' \<notin> set s \<Longrightarrow> endOrSlash rest \<Longrightarrow> dropWhile (\<lambda>x. x \<noteq> CHR ''/'') (s @ rest) = rest"
  by (induction s) (auto simp: endOrSlash_def split: list.splits)

lemma goodSeg_not_dot:
  assumes "goodSeg (c # s)" "endOrSlash rest"
  shows "\<not> (c = CHR ''.'' \<and> endOrSlash (s @ rest))"
proof
  assume a: "c = CHR ''.'' \<and> endOrSlash (s @ rest)"
  show False
  proof (cases s)
    case Nil
    with a assms(1) show False by (simp add: goodSeg_def)
  next
    case (Cons x xs)
    with a have "x = CHR ''/''" by (simp add: endOrSlash_simps)
    with Cons assms(1) show False by (simp add: goodSeg_def)
  qed
qed

lemma goodSeg_not_dotdot:
  assumes "goodSeg (c # s)" "endOrSlash rest"
  shows "\<not> (c = CHR ''.'' \<and> s @ rest \<noteq> [] \<and> hd (s @ rest) = CHR ''.'' \<and> endOrSlash (tl (s @ rest)))"
proof
  assume a: "c = CHR ''.'' \<and> s @ rest \<noteq> [] \<and> hd (s @ rest) = CHR ''.'' \<and> endOrSlash (tl (s @ rest))"
  show False
  proof (cases s)
    case Nil
    with a assms(1) show False by (simp add: goodSeg_def)
  next
    case (Cons x xs)
    note s = Cons
    with a have x: "x = CHR ''.''" and e: "endOrSlash (xs @ rest)" by simp_all
    show False
    proof (cases xs)
      case Nil
      with s x a assms(1) show False by (simp add: goodSeg_def)
    next
      case (Cons y ys)
      with e have "y = CHR ''/''" by (simp add: endOrSlash_simps)
      with Cons s assms(1) show False by (simp add: goodSeg_def)
    qed
  qed
qed

lemma Clean_loop_seg:
  assumes "goodSeg s" "endOrSlash rest"
  shows "Clean_loop True out dd (s @ rest) =
           Clean_loop True ((if length out \<noteq> 1 then out @ ''/'' else out) @ s) dd rest"
proof -
  from assms(1) obtain c s' where s: "s = c # s'"
    by (cases s) (auto simp: goodSeg_def)
  define R where "R = s' @ rest"
  have ns: "CHR ''/'' \<notin> set s"
    using assms(1) by (simp add: goodSeg_def)
  have t: "takeWhile (\<lambda>x. x \<noteq> CHR ''/'') (c # R) = s"
    using takeWhile_seg [OF ns assms(2)] s by (simp add: R_def)
  have d: "dropWhile (\<lambda>x. x \<noteq> CHR ''/'') (c # R) = rest"
    using dropWhile_seg [OF ns assms(2)] s by (simp add: R_def)
  have f1: "(c = CHR ''/'') = False"
    using ns s by auto
  have f2: "(c = CHR ''.'' \<and> endOrSlash R) = False"
    using goodSeg_not_dot assms s unfolding R_def by blast
  have f3: "(c = CHR ''.'' \<and> R \<noteq> [] \<and> hd R = CHR ''.'' \<and> endOrSlash (tl R)) = False"
    using goodSeg_not_dotdot assms s unfolding R_def by blast
  have "Clean_loop True out dd (c # R) =
          (let out1 = (if True \<and> length out \<noteq> 1 \<or> \<not> True \<and> length out \<noteq> 0
                       then out @ ''/'' else out)
           in Clean_loop True (out1 @ takeWhile (\<lambda>x. x \<noteq> CHR ''/'') (c # R)) dd
                (dropWhile (\<lambda>x. x \<noteq> CHR ''/'') (c # R)))"
    by (subst Clean_loop.simps(2)) (simp only: f1 f2 f3 if_False)
  also have "\<dots> = Clean_loop True ((if length out \<noteq> 1 then out @ ''/'' else out) @ s) dd rest"
    by (simp only: t d Let_def) simp
  finally show ?thesis
    by (simp add: s R_def)
qed

lemma render_Nil: "render [] = ''/''"
  by (simp add: render_def)

lemma render_Cons: "render (s # segs) = CHR ''/'' # s @ concat (map (\<lambda>s. CHR ''/'' # s) segs)"
  by (simp add: render_def)

lemma render_rooted: "\<exists>r. render segs = CHR ''/'' # r"
  by (cases segs) (simp_all add: render_Nil render_Cons)

lemma length_render: "list_all goodSeg segs \<Longrightarrow> (1 < length (render segs)) = (segs \<noteq> [])"
  by (cases segs) (auto simp: render_Nil render_Cons goodSeg_def)

lemma render_snoc_concat:
  "segs \<noteq> [] \<Longrightarrow> render (segs @ [s]) = render segs @ CHR ''/'' # s"
  by (simp add: render_def)

lemma render_snoc:
  assumes "list_all goodSeg segs"
  shows "(if length (render segs) \<noteq> 1 then render segs @ ''/'' else render segs) @ s
           = render (segs @ [s])"
proof (cases "segs = []")
  case True
  then show ?thesis by (simp add: render_Nil render_Cons)
next
  case False
  with length_render [OF assms] have "length (render segs) \<noteq> 1" by simp
  with False show ?thesis by (simp add: render_snoc_concat)
qed

lemma backtrack_stop: "\<not> (dd < w \<and> buf ! w \<noteq> CHR ''/'') \<Longrightarrow> backtrack buf dd w = w"
  by (subst backtrack.simps) auto

lemma backtrack_go:
  "dd < w \<Longrightarrow> buf ! w \<noteq> CHR ''/'' \<Longrightarrow> backtrack buf dd w = backtrack buf dd (w - 1)"
  by (subst backtrack.simps) simp

lemma backtrack_to_slash:
  "CHR ''/'' \<notin> set s \<Longrightarrow> k \<le> length s \<Longrightarrow> dd \<le> length pre \<Longrightarrow>
   backtrack (pre @ CHR ''/'' # s) dd (length pre + k) = length pre"
proof (induction k)
  case 0
  then show ?case by (simp add: backtrack_stop)
next
  case (Suc k)
  then have "s ! k \<noteq> CHR ''/''"
    by (metis Suc_le_lessD nth_mem)
  then have "(pre @ CHR ''/'' # s) ! (length pre + Suc k) \<noteq> CHR ''/''"
    by (simp add: nth_append)
  moreover have "dd < length pre + Suc k" using Suc.prems by simp
  ultimately have "backtrack (pre @ CHR ''/'' # s) dd (length pre + Suc k)
                     = backtrack (pre @ CHR ''/'' # s) dd (length pre + Suc k - 1)"
    by (rule backtrack_go [rotated])
  with Suc show ?case by simp
qed

lemma backtrack_to_root:
  "CHR ''/'' \<notin> set s \<Longrightarrow> k < length s \<Longrightarrow> backtrack (CHR ''/'' # s) 1 (Suc k) = 1"
proof (induction k)
  case 0
  then show ?case by (simp add: backtrack_stop)
next
  case (Suc k)
  then have "s ! Suc k \<noteq> CHR ''/''"
    by (metis nth_mem)
  then have "backtrack (CHR ''/'' # s) 1 (Suc (Suc k)) = backtrack (CHR ''/'' # s) 1 (Suc (Suc k) - 1)"
    by (intro backtrack_go) simp_all
  with Suc show ?case by simp
qed

lemma backtrack_render:
  assumes "list_all goodSeg segs" "goodSeg s"
  shows "take (backtrack (render (segs @ [s])) 1 (length (render (segs @ [s])) - 1))
           (render (segs @ [s])) = render segs"
proof (cases "segs = []")
  case True
  from assms(2) obtain k where k: "length s = Suc k" and ns: "CHR ''/'' \<notin> set s"
    by (cases s) (auto simp: goodSeg_def)
  have "backtrack (CHR ''/'' # s) 1 (Suc k) = 1"
    using ns k by (intro backtrack_to_root) simp_all
  with True k show ?thesis
    by (simp add: render_Nil render_Cons)
next
  case False
  let ?pre = "render segs"
  have ns: "CHR ''/'' \<notin> set s" using assms(2) by (simp add: goodSeg_def)
  have r: "render (segs @ [s]) = ?pre @ CHR ''/'' # s"
    using False by (rule render_snoc_concat)
  have "1 \<le> length ?pre" using length_render [OF assms(1)] False by simp
  then have "backtrack (?pre @ CHR ''/'' # s) 1 (length ?pre + length s) = length ?pre"
    using ns by (intro backtrack_to_slash) simp_all
  then show ?thesis
    by (simp add: r)
qed

lemma endOrSlash_dropWhile: "endOrSlash (dropWhile (\<lambda>x. x \<noteq> CHR ''/'') xs)"
  by (induction xs) (simp_all add: endOrSlash_simps)

lemma first_elem:
  assumes "c \<noteq> CHR ''/''"
  obtains s r where "c # rest = s @ r" "s \<noteq> []" "CHR ''/'' \<notin> set s" "endOrSlash r"
    "length r < length (c # rest)"
proof -
  let ?P = "\<lambda>x. x \<noteq> CHR ''/''"
  let ?s = "takeWhile ?P (c # rest)" and ?r = "dropWhile ?P (c # rest)"
  have "c # rest = ?s @ ?r" by simp
  moreover have "?s \<noteq> []" using assms by simp
  moreover have "CHR ''/'' \<notin> set ?s"
    using set_takeWhileD by fastforce
  moreover have "endOrSlash ?r" by (rule endOrSlash_dropWhile)
  moreover have "length ?r < length (c # rest)"
    using assms length_dropWhile_le [of ?P rest] by (simp add: le_imp_less_Suc)
  ultimately show ?thesis using that by blast
qed

lemma Clean_loop_render:
  "list_all goodSeg segs \<Longrightarrow>
   \<exists>segs'. list_all goodSeg segs' \<and> Clean_loop True (render segs) 1 rest = render segs'"
proof (induction rest arbitrary: segs rule: length_induct)
  case (1 rest)
  note good = "1.prems"
  show ?case
  proof (cases rest)
    case Nil
    with good show ?thesis by auto
  next
    case (Cons c rest')
    show ?thesis
    proof (cases "c = CHR ''/''")
      case True
      with Cons "1.IH" good show ?thesis by simp
    next
      case False
      from first_elem [OF False, of rest'] obtain s r where
        sr: "c # rest' = s @ r" "s \<noteq> []" "CHR ''/'' \<notin> set s" "endOrSlash r"
            "length r < length (c # rest')"
        by blast
      have ih: "\<And>segs. list_all goodSeg segs \<Longrightarrow>
                  \<exists>segs'. list_all goodSeg segs' \<and> Clean_loop True (render segs) 1 r = render segs'"
        using "1.IH" sr(5) Cons by blast
      consider (dot) "s = ''.''" | (dotdot) "s = ''..''" | (seg) "goodSeg s"
        using sr(2,3) by (auto simp: goodSeg_def)
      then show ?thesis
      proof cases
        case dot
        then have "Clean_loop True (render segs) 1 rest = Clean_loop True (render segs) 1 r"
          using Cons sr(1,4) by (simp add: Clean_loop_dot)
        with ih [OF good] show ?thesis by simp
      next
        case dotdot
        then have rest: "rest = CHR ''.'' # CHR ''.'' # r"
          using Cons sr(1) by simp
        show ?thesis
        proof (cases segs rule: rev_cases)
          case Nil
          then have "Clean_loop True (render segs) 1 rest = Clean_loop True (render segs) 1 r"
            using sr(4) by (simp add: rest Clean_loop_dotdot render_Nil del: Clean_loop.simps)
          with ih [OF good] show ?thesis by simp
        next
          case (snoc segs0 x)
          with good have g0: "list_all goodSeg segs0" and gx: "goodSeg x" by simp_all
          have "1 < length (render segs)"
            using length_render [OF good] snoc by simp
          then have "Clean_loop True (render segs) 1 rest = Clean_loop True (render segs0) 1 r"
            using sr(4) backtrack_render [OF g0 gx]
            by (simp add: rest Clean_loop_dotdot snoc del: Clean_loop.simps)
          with ih [OF g0] show ?thesis by simp
        qed
      next
        case seg
        have "Clean_loop True (render segs) 1 rest = Clean_loop True (render (segs @ [s])) 1 r"
          using Clean_loop_seg [OF seg sr(4), of "render segs" 1] render_snoc [OF good, of s] Cons sr(1)
          by simp
        moreover have "list_all goodSeg (segs @ [s])" using good seg by simp
        ultimately show ?thesis using ih by metis
      qed
    qed
  qed
qed

lemma Clean_loop_fixed:
  "list_all goodSeg segs \<Longrightarrow> list_all goodSeg acc \<Longrightarrow>
   Clean_loop True (render acc) 1 (concat (map (\<lambda>s. CHR ''/'' # s) segs)) = render (acc @ segs)"
proof (induction segs arbitrary: acc)
  case Nil
  then show ?case by simp
next
  case (Cons s segs)
  let ?rest = "concat (map (\<lambda>s. CHR ''/'' # s) segs)"
  have e: "endOrSlash ?rest"
    by (cases segs) (simp_all add: endOrSlash_simps)
  have gs: "goodSeg s" and gsegs: "list_all goodSeg segs" using Cons.prems(1) by simp_all
  have "Clean_loop True (render acc) 1 (CHR ''/'' # s @ ?rest)
          = Clean_loop True (render acc) 1 (s @ ?rest)"
    by (rule Clean_loop_slash)
  also have "\<dots> = Clean_loop True (render (acc @ [s])) 1 ?rest"
    using Clean_loop_seg [OF gs e, of "render acc" 1] render_snoc [OF Cons.prems(2), of s] by simp
  also have "\<dots> = render ((acc @ [s]) @ segs)"
    using Cons.IH [OF gsegs, of "acc @ [s]"] Cons.prems(2) gs by simp
  finally show ?case by simp
qed

section \<open>Normalization\<close>

lemma normalize_Clean_loop: "normalize_path p = (let out = Clean_loop True ''/'' 1 p in if length out = 0 then ''.'' else out)"
  by (simp add: normalize_path_def Clean_def)

lemma normalize_render: "\<exists>segs. list_all goodSeg segs \<and> normalize_path p = render segs"
proof -
  have "list_all goodSeg ([] :: string list)" by simp
  from Clean_loop_render [OF this, of p] obtain segs where
    s: "list_all goodSeg segs" "Clean_loop True ''/'' 1 p = render segs"
    by (auto simp: render_Nil)
  moreover have "render segs \<noteq> []"
    using render_rooted [of segs] by auto
  ultimately have "normalize_path p = render segs"
    by (simp add: normalize_Clean_loop Let_def)
  with s(1) show ?thesis by blast
qed

lemma normalize_rooted: "\<exists>r. normalize_path p = CHR ''/'' # r"
  using normalize_render [of p] render_rooted by metis

lemma normalize_fixed:
  assumes "list_all goodSeg segs"
  shows "normalize_path (render segs) = render segs"
proof -
  have "Clean_loop True ''/'' 1 (render segs) = render segs"
  proof (cases "segs = []")
    case True
    then show ?thesis by (simp add: render_Nil)
  next
    case False
    have "list_all goodSeg ([] :: string list)" by simp
    from Clean_loop_fixed [OF assms this] False show ?thesis
      by (simp add: render_def)
  qed
  moreover have "render segs \<noteq> []"
    using render_rooted [of segs] by auto
  ultimately show ?thesis
    by (simp add: normalize_Clean_loop Let_def)
qed

text \<open>
  C8. \<open>normalize_path\<close> is a total function (every loop of \<open>Clean\<close> terminates, on every
  input), its result is a normalized absolute path (\<open>/\<close>, or elements that are not
  empty, \<open>.\<close> or \<open>..\<close> and hold no slash, each after one slash), and normalizing a
  second time changes nothing.
\<close>

theorem C8_normalize_idempotent:
  "normalize_path (normalize_path p) = normalize_path p
   \<and> (\<exists>segs. list_all goodSeg segs \<and> normalize_path p = render segs)
   \<and> (\<exists>r. normalize_path p = CHR ''/'' # r)"
  using normalize_render [of p] normalize_fixed normalize_rooted [of p] by metis

section \<open>Parents and ancestors after Put\<close>

lemma parentKey_normalized:
  "fst (Split (normalize_path p)) \<noteq> []
   \<and> parentKey (normalize_path p) = butlast (fst (Split (normalize_path p)))
   \<and> parentKey (normalize_path p) @ CHR ''/'' # snd (Split (normalize_path p)) = normalize_path p"
proof -
  obtain r where n: "normalize_path p = CHR ''/'' # r"
    using normalize_rooted by blast
  show ?thesis
  proof (cases "normalize_path p" rule: Split_cases)
    case none
    with n show ?thesis by simp
  next
    case (some d b)
    then show ?thesis
      by (simp add: parentKey_def Let_def)
  qed
qed

lemma index_Put_parent:
  "index (Put t p v) (parentKey (normalize_path p)) =
     Some (Entry (parentKey (normalize_path p))
             (Children (lookup0 (index t) (parentKey (normalize_path p))) @ [Entry (normalize_path p) [] v])
             (Value (lookup0 (index t) (parentKey (normalize_path p)))))"
proof -
  let ?n = "normalize_path p"
  let ?idx = "(index t)(?n \<mapsto> Entry ?n [] v)"
  have ne: "fst (Split ?n) \<noteq> []" and pk: "parentKey ?n = butlast (fst (Split ?n))"
    using parentKey_normalized [of p] by simp_all
  have "length (parentKey ?n) < length ?n"
    using ne length_fst_Split [of ?n] by (cases "fst (Split ?n)") (auto simp: pk)
  then have neq: "parentKey ?n \<noteq> ?n" by auto
  have "lookup0 ?idx (parentKey ?n) = lookup0 (index t) (parentKey ?n)"
    using neq by (simp add: lookup0_def)
  moreover have "lookup0 ?idx ?n = Entry ?n [] v"
    by (simp add: lookup0_def)
  ultimately show ?thesis
    using Put_loop_first [OF ne, of ?idx ?n] by (simp add: index_Put pk)
qed

text \<open>
  C5. From any prior tree, \<open>Put(p, v1)\<close> followed by \<open>Put(p, v2)\<close> leaves \<open>Get(p)\<close>
  returning the second value, and the entry of the parent directory of the normalized
  name (the normalized name is the parent's key, a slash and the last element) has
  gained two children for \<open>p\<close>, one per call, after the children it had before.
\<close>

theorem C5_duplicate_children:
  "Get (Puts t [(p, v1), (p, v2)]) p = (Entry (normalize_path p) [] v2, True)
   \<and> parentKey (normalize_path p) @ CHR ''/'' # snd (Split (normalize_path p)) = normalize_path p
   \<and> index (Puts t [(p, v1), (p, v2)]) (parentKey (normalize_path p)) =
       Some (Entry (parentKey (normalize_path p))
               (Children (lookup0 (index t) (parentKey (normalize_path p)))
                  @ [Entry (normalize_path p) [] v1, Entry (normalize_path p) [] v2])
               (Value (lookup0 (index t) (parentKey (normalize_path p)))))"
proof -
  have P: "Puts t [(p, v1), (p, v2)] = Put (Put t p v1) p v2"
    by (simp add: Puts_def)
  have "lookup0 (index (Put t p v1)) (parentKey (normalize_path p)) =
          Entry (parentKey (normalize_path p))
             (Children (lookup0 (index t) (parentKey (normalize_path p))) @ [Entry (normalize_path p) [] v1])
             (Value (lookup0 (index t) (parentKey (normalize_path p))))"
    by (simp add: lookup0_def index_Put_parent)
  then have "index (Put (Put t p v1) p v2) (parentKey (normalize_path p)) =
       Some (Entry (parentKey (normalize_path p))
               (Children (lookup0 (index t) (parentKey (normalize_path p)))
                  @ [Entry (normalize_path p) [] v1, Entry (normalize_path p) [] v2])
               (Value (lookup0 (index t) (parentKey (normalize_path p)))))"
    by (simp add: index_Put_parent [of "Put t p v1"])
  moreover have "Get (Put (Put t p v1) p v2) p = (Entry (normalize_path p) [] v2, True)"
    by (simp add: Get_def index_Put_name)
  moreover have "parentKey (normalize_path p) @ CHR ''/'' # snd (Split (normalize_path p)) = normalize_path p"
    using parentKey_normalized [of p] by blast
  ultimately show ?thesis
    by (simp add: P)
qed

text \<open>
  C6. From any prior tree, \<open>Put(p, v)\<close> leaves at the normalized name an entry with
  value \<open>v\<close> and no children, whatever was stored there before; and every ancestor
  directory \<open>d\<close> of the normalized name (\<open>d/\<close> is a prefix of it) keeps the children
  and the value it had and gains one child at the end.
\<close>

theorem C6_put_resets_leaf_only:
  "index (Put t p v) (normalize_path p) = Some (Entry (normalize_path p) [] v)
   \<and> (normalize_path p = d @ CHR ''/'' # r \<longrightarrow>
        (\<exists>c. index (Put t p v) d =
           Some (Entry d (Children (lookup0 (index t) d) @ [c]) (Value (lookup0 (index t) d)))))"
  using index_Put_name index_Put_ancestor by blast

theorem C6_put_resets_leaf_only_witness:
  "normalize_path ''/a'' = [] @ CHR ''/'' # ''a''
   \<and> index (Put New ''/a/b'' (Some (1::nat))) ''/a''
       = Some (Entry ''/a'' [Entry ''/a/b'' [] (Some 1)] None)
   \<and> index (Put (Put New ''/a/b'' (Some (1::nat))) ''/a'' (Some 2)) ''/a''
       = Some (Entry ''/a'' [] (Some 2))
   \<and> (\<exists>c. index (Put (Put New ''/a/b'' (Some (1::nat))) ''/a'' (Some 2)) [] =
         Some (Entry [] (Children (lookup0 (index (Put New ''/a/b'' (Some 1))) []) @ [c])
                 (Value (lookup0 (index (Put New ''/a/b'' (Some 1))) []))))"
proof -
  have n: "normalize_path ''/a'' = ''/a''" by code_simp
  have b: "index (Put New ''/a/b'' (Some (1::nat))) ''/a''
             = Some (Entry ''/a'' [Entry ''/a/b'' [] (Some 1)] None)"
    by code_simp
  show ?thesis
    using C6_put_resets_leaf_only [of "Put New ''/a/b'' (Some (1::nat))" "''/a''" "Some 2" "[]" "''a''"] n b
    by simp
qed

section \<open>Trees built by Put\<close>

lemma Puts_Nil: "Puts t [] = t"
  by (simp add: Puts_def)

lemma Puts_snoc: "Puts t (calls @ [(p, v)]) = Put (Puts t calls) p v"
  by (simp add: Puts_def)

lemma index_Put_cases:
  assumes "index (Put t p v) k = Some e"
  shows "(k = normalize_path p \<and> e = Entry (normalize_path p) [] v)
         \<or> ((\<exists>r. normalize_path p = k @ CHR ''/'' # r)
              \<and> (\<exists>c. e = Entry k (Children (lookup0 (index t) k) @ [c]) (Value (lookup0 (index t) k))))
         \<or> (k \<noteq> normalize_path p \<and> \<not> (\<exists>r. normalize_path p = k @ CHR ''/'' # r) \<and> index t k = Some e)"
proof (cases "k = normalize_path p")
  case True
  with assms show ?thesis by (simp add: index_Put_name)
next
  case False
  show ?thesis
  proof (cases "\<exists>r. normalize_path p = k @ CHR ''/'' # r")
    case True
    then obtain r where "normalize_path p = k @ CHR ''/'' # r" by blast
    from index_Put_ancestor [OF this, of t v] assms True show ?thesis by auto
  next
    case nanc: False
    with False assms show ?thesis by (simp add: index_Put_frame)
  qed
qed

lemma Put_FullName:
  assumes "\<And>k e. index t k = Some e \<Longrightarrow> FullName e = k" "index (Put t p v) k = Some e"
  shows "FullName e = k"
  using index_Put_cases [OF assms(2)] assms(1) by auto

lemma Puts_FullName: "index (Puts New calls) k = Some e \<Longrightarrow> FullName e = k"
proof (induction calls arbitrary: k e rule: rev_induct)
  case Nil
  then show ?case by (simp add: Puts_Nil New_def)
next
  case (snoc c calls)
  obtain p v where c: "c = (p, v)" by (cases c)
  from snoc.prems have "index (Put (Puts New calls) p v) k = Some e"
    by (simp add: c Puts_snoc)
  then show ?case
    using Put_FullName snoc.IH by blast
qed

lemma normalize_no_double_slash: "\<not> (\<exists>r. normalize_path p = ''/'' @ CHR ''/'' # r)"
proof -
  obtain segs where s: "list_all goodSeg segs" "normalize_path p = render segs"
    using normalize_render by blast
  show ?thesis
  proof (cases segs)
    case Nil
    with s show ?thesis by (simp add: render_Nil)
  next
    case (Cons x xs)
    with s(1) obtain y ys where "x = y # ys" "y \<noteq> CHR ''/''"
      by (cases x) (auto simp: goodSeg_def)
    with Cons s show ?thesis by (simp add: render_Cons)
  qed
qed

lemma Put_slash_key:
  "index (Put t p v) ''/'' = (if normalize_path p = ''/'' then Some (Entry ''/'' [] v) else index t ''/'')"
proof (cases "normalize_path p = ''/''")
  case True
  then show ?thesis using index_Put_name [of t p v] by simp
next
  case False
  then have "''/'' \<noteq> normalize_path p" by simp
  from index_Put_frame [OF this normalize_no_double_slash, of t v] False show ?thesis by simp
qed

lemma Puts_slash_key: "Children (lookup0 (index (Puts New calls)) ''/'') = []"
proof (induction calls rule: rev_induct)
  case Nil
  then show ?case by (simp add: Puts_Nil New_def lookup0_def zeroEntry_def)
next
  case (snoc c calls)
  obtain p v where c: "c = (p, v)" by (cases c)
  show ?case
    using snoc.IH by (simp add: c Puts_snoc lookup0_def Put_slash_key)
qed

lemma Put_root:
  "\<exists>c. index (Put t p v) [] =
     Some (Entry [] (Children (lookup0 (index t) []) @ [c]) (Value (lookup0 (index t) [])))"
proof -
  obtain r where "normalize_path p = [] @ CHR ''/'' # r"
    using normalize_rooted by auto
  then show ?thesis by (rule index_Put_ancestor)
qed

lemma Puts_root_value: "Value (lookup0 (index (Puts New calls)) []) = None"
proof (induction calls rule: rev_induct)
  case Nil
  then show ?case by (simp add: Puts_Nil New_def lookup0_def zeroEntry_def)
next
  case (snoc c calls)
  obtain p v where c: "c = (p, v)" by (cases c)
  obtain ch where "index (Put (Puts New calls) p v) [] =
     Some (Entry [] (Children (lookup0 (index (Puts New calls)) []) @ [ch])
             (Value (lookup0 (index (Puts New calls)) [])))"
    using Put_root by blast
  with snoc.IH show ?case
    by (simp add: c Puts_snoc lookup0_def)
qed

lemma Put_Puts_root:
  "\<exists>cs. cs \<noteq> [] \<and> index (Put (Puts New calls) p v) [] = Some (Entry [] cs None)"
proof -
  obtain c where "index (Put (Puts New calls) p v) [] =
     Some (Entry [] (Children (lookup0 (index (Puts New calls)) []) @ [c])
             (Value (lookup0 (index (Puts New calls)) [])))"
    using Put_root by blast
  then have "index (Put (Puts New calls) p v) [] =
     Some (Entry [] (Children (lookup0 (index (Puts New calls)) []) @ [c]) None)"
    by (simp add: Puts_root_value)
  then show ?thesis by blast
qed

section \<open>The loop of LongestPrefix\<close>

lemma LongestPrefix_loop_Nil: "LongestPrefix_loop idx [] = (zeroEntry, False)"
  by (simp add: LongestPrefix_loop.simps)

lemma LongestPrefix_loop_step:
  "dir \<noteq> [] \<Longrightarrow>
   LongestPrefix_loop idx dir =
     (case idx (butlast dir) of
        Some entry \<Rightarrow> (entry, True)
      | None \<Rightarrow> LongestPrefix_loop idx (fst (Split (butlast dir))))"
  by (subst LongestPrefix_loop.simps) (simp add: butlast_conv_take Let_def split: option.splits)

lemma LongestPrefix_loop_find:
  "LongestPrefix_loop idx dir =
     (case find (\<lambda>k. idx k \<noteq> None) (walk dir) of
        None \<Rightarrow> (zeroEntry, False)
      | Some k \<Rightarrow> (the (idx k), True))"
proof (induction dir rule: length_induct)
  case (1 dir)
  show ?case
  proof (cases "dir = []")
    case True
    then show ?thesis by (simp add: LongestPrefix_loop_Nil walk_Nil)
  next
    case False
    have "length (fst (Split (butlast dir))) < length dir"
      using False by (rule Split_butlast_shorter)
    with "1.IH" have "LongestPrefix_loop idx (fst (Split (butlast dir))) =
       (case find (\<lambda>k. idx k \<noteq> None) (walk (fst (Split (butlast dir)))) of
          None \<Rightarrow> (zeroEntry, False)
        | Some k \<Rightarrow> (the (idx k), True))"
      by blast
    then show ?thesis
      using False by (auto simp: LongestPrefix_loop_step walk_step split: option.splits)
  qed
qed

lemma LongestPrefix_found:
  assumes "LongestPrefix t name = (e, True)"
  shows "\<exists>k. k \<in> set (walk (normalize_path name)) \<and> index t k = Some e"
proof -
  from assms obtain k where
    "find (\<lambda>k. index t k \<noteq> None) (walk (normalize_path name)) = Some k" "e = the (index t k)"
    by (auto simp: LongestPrefix_def LongestPrefix_loop_find split: option.splits)
  then show ?thesis
    by (auto simp: find_Some_iff in_set_conv_nth)
qed

text \<open>
  C3. On every tree built from \<open>New\<close> by calls of \<open>Put\<close>, an entry that
  \<open>LongestPrefix(name)\<close> reports as found has a path different from the normalized
  name: it is stored under a strictly shorter key, and its path is its key.
\<close>

theorem C3_never_exact_match:
  "LongestPrefix (Puts New calls) name = (e, True) \<Longrightarrow>
   FullName e \<noteq> normalize_path name \<and> length (FullName e) < length (normalize_path name)"
proof -
  assume "LongestPrefix (Puts New calls) name = (e, True)"
  then obtain k where k: "k \<in> set (walk (normalize_path name))" "index (Puts New calls) k = Some e"
    using LongestPrefix_found by blast
  from k(2) have "FullName e = k" by (rule Puts_FullName)
  moreover from k(1) have "length k < length (normalize_path name)" by (rule walk_shorter)
  ultimately show ?thesis by auto
qed

theorem C3_never_exact_match_witness:
  "LongestPrefix (Puts New [(''/a/b'', Some (1::nat)), (''/a/b/c'', Some 2)]) ''/a/b/c''
     = (Entry ''/a/b'' [Entry ''/a/b/c'' [] (Some 2)] (Some 1), True)
   \<and> FullName (Entry ''/a/b'' [Entry ''/a/b/c'' [] (Some 2)] (Some (1::nat))) \<noteq> normalize_path ''/a/b/c''"
proof -
  have l: "LongestPrefix (Puts New [(''/a/b'', Some (1::nat)), (''/a/b/c'', Some 2)]) ''/a/b/c''
     = (Entry ''/a/b'' [Entry ''/a/b/c'' [] (Some 2)] (Some 1), True)"
    by code_simp
  show ?thesis
    using C3_never_exact_match [OF l] l by simp
qed

section \<open>The root entry\<close>

lemma walk_prefix: "k \<in> set (walk dir) \<Longrightarrow> prefix k dir"
proof (induction dir arbitrary: k rule: length_induct)
  case (1 dir)
  from "1.prems" have ne: "dir \<noteq> []" by (auto simp: walk_Nil)
  let ?d1 = "butlast dir"
  from "1.prems" ne have "k = ?d1 \<or> k \<in> set (walk (fst (Split ?d1)))"
    by (simp add: walk_step)
  then show ?case
  proof
    assume "k = ?d1"
    then show ?thesis by (simp add: prefixeq_butlast)
  next
    assume a: "k \<in> set (walk (fst (Split ?d1)))"
    have "length (fst (Split ?d1)) < length dir"
      using ne by (rule Split_butlast_shorter)
    with "1.IH" a have "prefix k (fst (Split ?d1))" by blast
    moreover have "prefix (fst (Split ?d1)) ?d1"
      by (simp add: Split_def Let_def take_is_prefix)
    moreover have "prefix ?d1 dir" by (rule prefixeq_butlast)
    ultimately show ?thesis by (meson prefix_order.trans)
  qed
qed

lemma walk_rooted: "[] \<in> set (walk (CHR ''/'' # r))"
proof (induction r rule: length_induct)
  case (1 r)
  show ?case
  proof (cases r rule: rev_cases)
    case Nil
    then show ?thesis by (simp add: walk_step)
  next
    case (snoc r' x)
    then have b: "butlast (CHR ''/'' # r) = CHR ''/'' # r'" by simp
    obtain d f where df: "Split (CHR ''/'' # r') = (d, f)" by (cases "Split (CHR ''/'' # r')")
    from Split_rooted [OF df] obtain d' where d: "d = CHR ''/'' # d'"
      by (cases d) auto
    have "length d \<le> length (CHR ''/'' # r')"
      using length_fst_Split [of "CHR ''/'' # r'"] df by simp
    then have "length d' < length r" using d snoc by simp
    with "1.IH" have "[] \<in> set (walk (CHR ''/'' # d'))" by blast
    then show ?thesis
      using b df d by (simp add: walk_step [of "CHR ''/'' # r"])
  qed
qed

lemma walk_last: "walk (CHR ''/'' # r) \<noteq> [] \<and> last (walk (CHR ''/'' # r)) = []"
proof (induction r rule: length_induct)
  case (1 r)
  show ?case
  proof (cases r rule: rev_cases)
    case Nil
    then show ?thesis by (simp add: walk_step Split_no_slash walk_Nil)
  next
    case (snoc r' x)
    then have b: "butlast (CHR ''/'' # r) = CHR ''/'' # r'" by simp
    obtain d f where df: "Split (CHR ''/'' # r') = (d, f)" by (cases "Split (CHR ''/'' # r')")
    from Split_rooted [OF df] obtain d' where d: "d = CHR ''/'' # d'"
      by (cases d) auto
    have "length d \<le> length (CHR ''/'' # r')"
      using length_fst_Split [of "CHR ''/'' # r'"] df by simp
    then have "length d' < length r" using d snoc by simp
    with "1.IH" have "walk (CHR ''/'' # d') \<noteq> [] \<and> last (walk (CHR ''/'' # d')) = []" by blast
    then show ?thesis
      using b df d by (simp add: walk_step [of "CHR ''/'' # r"])
  qed
qed

lemma LongestPrefix_root_found:
  assumes "index t [] \<noteq> None"
  shows "snd (LongestPrefix t q)"
proof -
  obtain r where "normalize_path q = CHR ''/'' # r"
    using normalize_rooted by blast
  then have "[] \<in> set (walk (normalize_path q))"
    using walk_rooted by simp
  with assms have "find (\<lambda>k. index t k \<noteq> None) (walk (normalize_path q)) \<noteq> None"
    by (auto simp: find_None_iff)
  then show ?thesis
    by (auto simp: LongestPrefix_def LongestPrefix_loop_find split: option.splits)
qed

lemma LongestPrefix_root_returned:
  assumes "index t [] \<noteq> None"
    and "\<forall>k. k \<noteq> [] \<and> prefix k (normalize_path q) \<longrightarrow> index t k = None"
  shows "Some (fst (LongestPrefix t q)) = index t []"
proof -
  from LongestPrefix_root_found [OF assms(1), of q] obtain e where
    e: "LongestPrefix t q = (e, True)"
    by (cases "LongestPrefix t q") auto
  then obtain k where k: "k \<in> set (walk (normalize_path q))" "index t k = Some e"
    using LongestPrefix_found by blast
  from k(1) have "prefix k (normalize_path q)" by (rule walk_prefix)
  with assms(2) k(2) have "k = []" by auto
  with k(2) e show ?thesis by simp
qed

lemma Puts_slash_direct:
  "index (Puts New calls) ''/'' = None
   \<or> (\<exists>p v. (p, v) \<in> set calls \<and> normalize_path p = ''/''
            \<and> index (Puts New calls) ''/'' = Some (Entry ''/'' [] v))"
proof (induction calls rule: rev_induct)
  case Nil
  then show ?case by (simp add: Puts_Nil New_def)
next
  case (snoc c calls)
  obtain p v where c: "c = (p, v)" by (cases c)
  show ?case
  proof (cases "normalize_path p = ''/''")
    case True
    then have "index (Puts New (calls @ [c])) ''/'' = Some (Entry ''/'' [] v)"
      by (simp add: c Puts_snoc Put_slash_key)
    with True c show ?thesis by auto
  next
    case False
    then have "index (Puts New (calls @ [c])) ''/'' = index (Puts New calls) ''/''"
      by (simp add: c Puts_snoc Put_slash_key)
    with snoc.IH show ?thesis by auto
  qed
qed

lemma Get_not_root:
  assumes "index (Puts New calls) [] = Some (Entry [] cs None)" "cs \<noteq> []"
  shows "Some (fst (Get (Puts New calls) q)) \<noteq> index (Puts New calls) []"
proof (cases "index (Puts New calls) (normalize_path q)")
  case None
  then have "fst (Get (Puts New calls) q) = Entry [] [] None"
    by (simp add: Get_def zeroEntry_def)
  with assms show ?thesis by simp
next
  case (Some e)
  then have "FullName e = normalize_path q" by (rule Puts_FullName)
  moreover obtain r where "normalize_path q = CHR ''/'' # r"
    using normalize_rooted by blast
  moreover have "fst (Get (Puts New calls) q) = e"
    using Some by (simp add: Get_def)
  ultimately show ?thesis using assms(1) by auto
qed

text \<open>
  C10. Let \<open>T\<close> be the tree after a call of \<open>Put\<close> on a tree built from \<open>New\<close> by
  calls of \<open>Put\<close>. Then the key \<open>""\<close> holds an entry with \<open>FullName\<close> \<open>""\<close>, no value
  and at least one child: the synthesized root. The key \<open>/\<close> holds nothing, or an
  entry without children that a call of \<open>Put\<close> with a name normalizing to \<open>/\<close> stored
  with its value. Every normalized name begins with \<open>/\<close>, and no \<open>Get\<close> returns the
  root entry. The keys that \<open>LongestPrefix\<close> looks up end with \<open>""\<close>; every
  \<open>LongestPrefix\<close> reports found, and when no non-empty prefix of the normalized
  query is a key of the index, it returns the root entry.
\<close>

theorem C10_root_under_empty_key:
  assumes "T = Put (Puts New calls) p v"
  shows "(\<exists>cs. cs \<noteq> [] \<and> index T [] = Some (Entry [] cs None))
       \<and> (index T ''/'' = None
            \<or> (\<exists>p' v'. (p', v') \<in> set (calls @ [(p, v)]) \<and> normalize_path p' = ''/''
                  \<and> index T ''/'' = Some (Entry ''/'' [] v')))
       \<and> (\<exists>r. normalize_path q = CHR ''/'' # r)
       \<and> Some (fst (Get T q)) \<noteq> index T []
       \<and> last (walk (normalize_path q)) = []
       \<and> snd (LongestPrefix T q)
       \<and> ((\<forall>k. k \<noteq> [] \<and> prefix k (normalize_path q) \<longrightarrow> index T k = None)
            \<longrightarrow> Some (fst (LongestPrefix T q)) = index T [])"
proof -
  have T: "T = Puts New (calls @ [(p, v)])"
    using assms by (simp add: Puts_snoc)
  obtain cs where cs: "cs \<noteq> []" "index T [] = Some (Entry [] cs None)"
    using Put_Puts_root [of calls p v] assms by blast
  have 1: "\<exists>cs. cs \<noteq> [] \<and> index T [] = Some (Entry [] cs None)"
    using cs by blast
  have 2: "index T ''/'' = None
            \<or> (\<exists>p' v'. (p', v') \<in> set (calls @ [(p, v)]) \<and> normalize_path p' = ''/''
                  \<and> index T ''/'' = Some (Entry ''/'' [] v'))"
    unfolding T by (rule Puts_slash_direct)
  have 3: "\<exists>r. normalize_path q = CHR ''/'' # r"
    by (rule normalize_rooted)
  have 4: "Some (fst (Get T q)) \<noteq> index T []"
    using cs unfolding T by (rule Get_not_root [rotated])
  have ne: "index T [] \<noteq> None" using cs by simp
  have 5: "snd (LongestPrefix T q)"
    using ne by (rule LongestPrefix_root_found)
  have 6: "(\<forall>k. k \<noteq> [] \<and> prefix k (normalize_path q) \<longrightarrow> index T k = None)
            \<longrightarrow> Some (fst (LongestPrefix T q)) = index T []"
    using LongestPrefix_root_returned [OF ne] by blast
  have 7: "last (walk (normalize_path q)) = []"
    using 3 walk_last by auto
  from 1 2 3 4 5 6 7 show ?thesis by blast
qed

theorem C10_root_under_empty_key_witness:
  "LongestPrefix (Put (Puts New []) ''/a'' (Some (1::nat))) ''/b''
       = (Entry [] [Entry ''/a'' [] (Some 1)] None, True)
   \<and> Some (fst (LongestPrefix (Put (Puts New []) ''/a'' (Some (1::nat))) ''/b''))
       = index (Put (Puts New []) ''/a'' (Some 1)) []
   \<and> index (Put (Puts New []) ''/a'' (Some (1::nat))) ''/'' = None"
proof -
  let ?T = "Put (Puts New []) ''/a'' (Some (1::nat))"
  have n: "normalize_path ''/b'' = ''/b''" by code_simp
  have i1: "index ?T ''/'' = None" by code_simp
  have i2: "index ?T ''/b'' = None" by code_simp
  have l: "LongestPrefix ?T ''/b'' = (Entry [] [Entry ''/a'' [] (Some 1)] None, True)" by code_simp
  have h: "\<forall>k. k \<noteq> [] \<and> prefix k (normalize_path ''/b'') \<longrightarrow> index ?T k = None"
    using i1 i2 by (auto simp: n prefix_Cons)
  show ?thesis
    using C10_root_under_empty_key [OF refl, of "[]" "''/a''" "Some (1::nat)" "''/b''"] h l i1 by blast
qed

section \<open>The root cannot be read back, and the first step of LongestPrefix\<close>

lemma concat_slash_prefix:
  assumes "\<forall>s \<in> set segs. CHR ''/'' \<notin> set s"
    and "concat (map (\<lambda>s. CHR ''/'' # s) segs) = d @ CHR ''/'' # r"
  shows "\<exists>k < length segs. d = concat (map (\<lambda>s. CHR ''/'' # s) (take k segs))"
  using assms
proof (induction segs arbitrary: r rule: rev_induct)
  case Nil
  then show ?case by simp
next
  case (snoc s segs)
  let ?pre = "concat (map (\<lambda>s. CHR ''/'' # s) segs)"
  have eq: "?pre @ CHR ''/'' # s = d @ CHR ''/'' # r"
    using snoc.prems(2) by simp
  have ns: "CHR ''/'' \<notin> set s" using snoc.prems(1) by simp
  from prefix_slash_cases [OF eq ns] show ?case
  proof
    assume "d = ?pre"
    then have "d = concat (map (\<lambda>s. CHR ''/'' # s) (take (length segs) (segs @ [s])))" by simp
    then show ?thesis
      by (metis length_append_singleton lessI)
  next
    assume "\<exists>u. ?pre = d @ CHR ''/'' # u"
    then obtain u where "?pre = d @ CHR ''/'' # u" by blast
    with snoc.IH snoc.prems(1) obtain k where
      k: "k < length segs" "d = concat (map (\<lambda>s. CHR ''/'' # s) (take k segs))"
      by auto
    then have "d = concat (map (\<lambda>s. CHR ''/'' # s) (take k (segs @ [s])))" by simp
    with k(1) show ?thesis
      by (metis length_append_singleton less_Suc_eq)
  qed
qed

lemma ancestor_normalized:
  assumes "normalize_path p = d @ CHR ''/'' # r" "d \<noteq> []"
  shows "normalize_path d = d"
proof -
  obtain segs where s: "list_all goodSeg segs" "normalize_path p = render segs"
    using normalize_render by blast
  have ne: "segs \<noteq> []"
    using s(2) assms by (cases d) (auto simp: render_Nil)
  have sl: "\<forall>s \<in> set segs. CHR ''/'' \<notin> set s"
    using s(1) by (simp add: list_all_iff goodSeg_def)
  have "concat (map (\<lambda>s. CHR ''/'' # s) segs) = d @ CHR ''/'' # r"
    using s(2) assms(1) ne by (simp add: render_def)
  from concat_slash_prefix [OF sl this] obtain k where
    k: "k < length segs" "d = concat (map (\<lambda>s. CHR ''/'' # s) (take k segs))"
    by blast
  have "take k segs \<noteq> []" using k(2) assms(2) by auto
  then have "d = render (take k segs)" using k(2) by (simp add: render_def)
  moreover have "list_all goodSeg (take k segs)"
    using s(1) by (auto simp: list_all_iff dest: in_set_takeD)
  ultimately show ?thesis
    using normalize_fixed by metis
qed

lemma Get_ancestor_after_Put:
  assumes "normalize_path p = d @ CHR ''/'' # r" "d \<noteq> []"
  shows "snd (Get (Put t p v) d)
         \<and> FullName (fst (Get (Put t p v) d)) = d
         \<and> Value (fst (Get (Put t p v) d)) = Value (lookup0 (index t) d)"
proof -
  obtain c where "index (Put t p v) d =
      Some (Entry d (Children (lookup0 (index t) d) @ [c]) (Value (lookup0 (index t) d)))"
    using index_Put_ancestor [OF assms(1)] by blast
  then show ?thesis
    by (simp add: Get_def ancestor_normalized [OF assms])
qed

text \<open>
  C1 at the root. After \<open>Put("/a", 1)\<close> on the empty tree, \<open>Get("/")\<close> reports
  not found: the loop of \<open>Put\<close> cuts the slash off the directory \<open>/\<close> and stores the
  root under the key \<open>""\<close>, where \<open>Get\<close>, which looks up a normalized name, never
  looks. \<open>Get("/a")\<close> itself is found.
\<close>

theorem C1_root_not_found:
  "Get (Puts New [(''/a'', Some (1::nat))]) ''/'' = (Entry [] [] None, False)
   \<and> Get (Puts New [(''/a'', Some (1::nat))]) ''/a'' = (Entry ''/a'' [] (Some 1), True)
   \<and> index (Puts New [(''/a'', Some (1::nat))]) [] = Some (Entry [] [Entry ''/a'' [] (Some 1)] None)
   \<and> index (Puts New [(''/a'', Some (1::nat))]) ''/'' = None"
  by code_simp

text \<open>
  C2 on a last element of two bytes. After \<open>Put("/a/b", 1)\<close> on the empty tree, which
  also registers the directory \<open>/a\<close>, \<open>LongestPrefix("/a/bc")\<close> returns the entry of
  \<open>/a/b\<close>: the first candidate is the normalized name without its last byte, not
  without its last element. \<open>/a/b\<close> is not an ancestor directory of \<open>/a/bc\<close>; its
  longest registered ancestor directory is \<open>/a\<close>. Only the first step cuts a byte:
  on the same tree \<open>LongestPrefix("/a/bcd")\<close> returns the entry of \<open>/a\<close>.
\<close>

theorem C2_first_step_cuts_one_byte:
  "LongestPrefix (Put New ''/a/b'' (Some (1::nat))) ''/a/bc'' = (Entry ''/a/b'' [] (Some 1), True)
   \<and> normalize_path ''/a/bc'' = ''/a/bc''
   \<and> index (Put New ''/a/b'' (Some (1::nat))) ''/a'' = Some (Entry ''/a'' [Entry ''/a/b'' [] (Some 1)] None)
   \<and> LongestPrefix (Put New ''/a/b'' (Some (1::nat))) ''/a/bcd''
       = (Entry ''/a'' [Entry ''/a/b'' [] (Some 1)] None, True)"
  by code_simp

end
